theory Spec2Isabelle
  imports Main
begin

section \<open>gotimer: time, callbacks and the two timer variants\<close>

text \<open>
  The package reads the clock with \<^verbatim>\<open>time.Now()\<close> and compares and shifts instants with
  \<^verbatim>\<open>Time.After\<close> and \<^verbatim>\<open>Time.Add\<close>. An instant is modelled as an integer count of
  nanoseconds on the monotonic clock, a \<^verbatim>\<open>time.Duration\<close> as a signed integer of
  nanoseconds.
\<close>

type_synonym time = int
type_synonym duration = int

definition After :: "time \<Rightarrow> time \<Rightarrow> bool" where
  "After t u = (u < t)"

definition Add :: "time \<Rightarrow> duration \<Rightarrow> time" where
  "Add t d = t + d"

text \<open>
  A callback \<^verbatim>\<open>fn func(T)\<close> is opaque caller code. It is modelled as a function of its
  payload and of the caller's world \<open>'w\<close> (everything the callback may touch); it either
  returns, leaving a new world, or panics with a value (kept as the text that
  \<^verbatim>\<open>%v\<close> prints), leaving the world as it was at the panic.
\<close>

datatype 'w cb_result = Returned 'w | Panicked string 'w

type_synonym ('a, 'w) callback = "'a \<Rightarrow> 'w \<Rightarrow> 'w cb_result"

text \<open>
  \<^verbatim>\<open>type IntervalTimer[T any] struct { c time.Time; i time.Duration; n time.Time;
  fn func(T); t T; s bool }\<close>. The one-letter field names of the source are prefixed with
  \<open>it_\<close> (and \<open>ot_\<close> for \<^verbatim>\<open>OneTimer\<close>), since both structs use \<^verbatim>\<open>c\<close>, \<^verbatim>\<open>fn\<close>
  and \<^verbatim>\<open>t\<close>.
\<close>

record ('a, 'w) IntervalTimer =
  it_c :: time
  it_i :: duration
  it_n :: time
  it_fn :: "('a, 'w) callback"
  it_t :: 'a
  it_s :: bool

record ('a, 'w) OneTimer =
  ot_c :: time
  ot_fn :: "('a, 'w) callback"
  ot_t :: 'a

definition IntervalTimer_getCreated :: "('a, 'w) IntervalTimer \<Rightarrow> time" where
  "IntervalTimer_getCreated self = it_c self"

text \<open>\<^verbatim>\<open>getInterval\<close> returns \<^verbatim>\<open>&self.i\<close>, a pointer that is never nil.\<close>

definition IntervalTimer_getInterval :: "('a, 'w) IntervalTimer \<Rightarrow> duration option" where
  "IntervalTimer_getInterval self = Some (it_i self)"

definition IntervalTimer_getStop :: "('a, 'w) IntervalTimer \<Rightarrow> bool" where
  "IntervalTimer_getStop self = it_s self"

text \<open>
  A tick returns the timer as the call leaves it, and what became of the callback:
  \<open>None\<close> when it was not invoked, \<open>Some r\<close> when it was invoked and ended as \<open>r\<close>.
  When the callback panics, the assignment to \<^verbatim>\<open>self.n\<close> after it is not reached.
\<close>

definition IntervalTimer_tick ::
  "time \<Rightarrow> ('a, 'w) IntervalTimer \<Rightarrow> 'w \<Rightarrow> ('a, 'w) IntervalTimer \<times> 'w cb_result option" where
  "IntervalTimer_tick t self w =
     (if After t (it_n self) then
        (case it_fn self (it_t self) w of
           Returned w' \<Rightarrow> (self\<lparr>it_n := Add t (it_i self)\<rparr>, Some (Returned w'))
         | Panicked p w' \<Rightarrow> (self, Some (Panicked p w')))
      else (self, None))"

definition OneTimer_getCreated :: "('a, 'w) OneTimer \<Rightarrow> time" where
  "OneTimer_getCreated self = ot_c self"

definition OneTimer_getInterval :: "('a, 'w) OneTimer \<Rightarrow> duration option" where
  "OneTimer_getInterval self = None"

definition OneTimer_getStop :: "('a, 'w) OneTimer \<Rightarrow> bool" where
  "OneTimer_getStop self = True"

definition OneTimer_tick ::
  "time \<Rightarrow> ('a, 'w) OneTimer \<Rightarrow> 'w \<Rightarrow> ('a, 'w) OneTimer \<times> 'w cb_result option" where
  "OneTimer_tick t self w = (self, Some (ot_fn self (ot_t self) w))"

text \<open>The world after a tick: the one the callback left, or the old one when it did not run.\<close>

definition world_after :: "'w \<Rightarrow> 'w cb_result option \<Rightarrow> 'w" where
  "world_after w r = (case r of None \<Rightarrow> w | Some (Returned w') \<Rightarrow> w' | Some (Panicked p w') \<Rightarrow> w')"

text \<open>
  Calling \<^verbatim>\<open>tick\<close> repeatedly on one interval timer, at the given times in turn. The
  result lists the times at which the callback was invoked; a panic of the callback
  unwinds, so no later call of the sequence happens.
\<close>

fun tick_seq ::
  "time list \<Rightarrow> ('a, 'w) IntervalTimer \<Rightarrow> 'w \<Rightarrow> time list \<times> ('a, 'w) IntervalTimer \<times> 'w" where
  "tick_seq [] self w = ([], self, w)"
| "tick_seq (t # ts) self w =
     (case IntervalTimer_tick t self w of
        (self', None) \<Rightarrow> tick_seq ts self' w
      | (self', Some (Returned w')) \<Rightarrow>
          (case tick_seq ts self' w' of (fs, r) \<Rightarrow> (t # fs, r))
      | (self', Some (Panicked p w')) \<Rightarrow> ([t], self', w'))"

text \<open>Consecutive entries of a list of fire times are at least \<open>d\<close> apart.\<close>

fun separated :: "duration \<Rightarrow> time list \<Rightarrow> bool" where
  "separated d (a # b # r) = (d \<le> b - a \<and> separated d (b # r))"
| "separated d _ = True"


section \<open>The timer interface and the heap of timer objects\<close>

text \<open>
  \<^verbatim>\<open>type timer interface { getInterval() *time.Duration; getCreated() time.Time;
  tick(t time.Time); getStop() bool }\<close> has the two implementations above. The scheduler
  holds pointers (\<^verbatim>\<open>*IntervalTimer[T]\<close>, \<^verbatim>\<open>*OneTimer[T]\<close>), and one pointer may sit in
  several places of its slice, so timer objects live in a heap and the slice holds their
  addresses.
\<close>

datatype ('a, 'w) timer = Interval "('a, 'w) IntervalTimer" | One "('a, 'w) OneTimer"

fun getInterval :: "('a, 'w) timer \<Rightarrow> duration option" where
  "getInterval (Interval self) = IntervalTimer_getInterval self"
| "getInterval (One self) = OneTimer_getInterval self"

fun getCreated :: "('a, 'w) timer \<Rightarrow> time" where
  "getCreated (Interval self) = IntervalTimer_getCreated self"
| "getCreated (One self) = OneTimer_getCreated self"

fun getStop :: "('a, 'w) timer \<Rightarrow> bool" where
  "getStop (Interval self) = IntervalTimer_getStop self"
| "getStop (One self) = OneTimer_getStop self"

fun tick :: "time \<Rightarrow> ('a, 'w) timer \<Rightarrow> 'w \<Rightarrow> ('a, 'w) timer \<times> 'w cb_result option" where
  "tick t (Interval self) w = (case IntervalTimer_tick t self w of (self', r) \<Rightarrow> (Interval self', r))"
| "tick t (One self) w = (case OneTimer_tick t self w of (self', r) \<Rightarrow> (One self', r))"

type_synonym addr = nat

section \<open>Go slices\<close>

text \<open>
  A slice \<^verbatim>\<open>[]timer\<close> is a window on a backing array: \<open>sl_arr\<close> is the array from the
  slice's start to its capacity, \<open>sl_len\<close> the length. An element is an interface value:
  \<open>None\<close> is the nil interface, \<open>Some a\<close> a pointer to the timer at \<open>a\<close>.
\<close>

record slice =
  sl_arr :: "addr option list"
  sl_len :: nat

definition cap :: "slice \<Rightarrow> nat" where
  "cap s = length (sl_arr s)"

definition elems :: "slice \<Rightarrow> addr option list" where
  "elems s = take (sl_len s) (sl_arr s)"

text \<open>\<^verbatim>\<open>make([]timer, 0)\<close>\<close>

definition make0 :: slice where
  "make0 = \<lparr>sl_arr = [], sl_len = 0\<rparr>"

text \<open>
  \<^verbatim>\<open>s[:j]\<close>: the bound is checked against the capacity, not the length; out of range
  is a run-time panic (\<open>None\<close>).
\<close>

definition slice_to :: "slice \<Rightarrow> nat \<Rightarrow> slice option" where
  "slice_to s j = (if j \<le> cap s then Some (s\<lparr>sl_len := j\<rparr>) else None)"

text \<open>
  \<^verbatim>\<open>append(s, xs...)\<close>: in place when the capacity suffices (the array beyond the new
  length keeps what it held), otherwise into a fresh zeroed array whose capacity the
  run-time system chooses; that choice is the parameter \<open>grow\<close> (old capacity, needed
  length), never taken below the needed length. The values \<open>xs\<close> are read before any
  is written, as the run-time system's overlapping copy does.
\<close>

definition append_sl :: "(nat \<Rightarrow> nat \<Rightarrow> nat) \<Rightarrow> slice \<Rightarrow> addr option list \<Rightarrow> slice" where
  "append_sl grow s xs =
     (let m = sl_len s + length xs in
      if m \<le> cap s
      then \<lparr>sl_arr = take (sl_len s) (sl_arr s) @ xs @ drop m (sl_arr s), sl_len = m\<rparr>
      else \<lparr>sl_arr = take (sl_len s) (sl_arr s) @ xs @ replicate (max (grow (cap s) m) m - m) None,
            sl_len = m\<rparr>)"

text \<open>The loop body \<^verbatim>\<open>s.timers = append(s.timers[:idx], s.timers[:idx+1]...)\<close>.\<close>

definition remove_at :: "(nat \<Rightarrow> nat \<Rightarrow> nat) \<Rightarrow> nat \<Rightarrow> slice \<Rightarrow> slice option" where
  "remove_at grow idx s =
     (case slice_to s idx of
        None \<Rightarrow> None
      | Some dst \<Rightarrow>
          (case slice_to s (idx + 1) of
             None \<Rightarrow> None
           | Some src \<Rightarrow> Some (append_sl grow dst (elems src))))"

text \<open>
  \<^verbatim>\<open>for _, idx := range del { ... }\<close>. The result is the slice as the loop leaves it and
  whether it ended normally (\<open>False\<close>: a slice expression panicked).
\<close>

fun remove_all :: "(nat \<Rightarrow> nat \<Rightarrow> nat) \<Rightarrow> nat list \<Rightarrow> slice \<Rightarrow> slice \<times> bool" where
  "remove_all grow [] s = (s, True)"
| "remove_all grow (idx # del) s =
     (case remove_at grow idx s of
        None \<Rightarrow> (s, False)
      | Some s' \<Rightarrow> remove_all grow del s')"

section \<open>The scheduler and the state of the program\<close>

text \<open>
  \<^verbatim>\<open>type scheduler struct { timers []timer; stop chan bool; queue chan timer }\<close>. Both
  channels are unbuffered, so they hold nothing: what counts is who is waiting to send,
  which is kept in the program state below. \<open>polling\<close> records whether the goroutine
  started by \<^verbatim>\<open>go _scheduler.poll()\<close> is still running.
\<close>

record scheduler =
  timers :: slice
  polling :: bool

text \<open>
  A goroutine waiting to send a timer on \<^verbatim>\<open>s.queue\<close>: either the goroutine that called
  the constructor, inside the deferred \<^verbatim>\<open>queue\<close> at \<^verbatim>\<open>s.queue <- t\<close>, or the goroutine
  that \<^verbatim>\<open>queue\<close> started, which sleeps first. \<open>Waiter k d\<close> was started when \<open>k\<close> clock
  readings had been taken and sleeps for \<open>d\<close>.
\<close>

datatype sender = Caller | Waiter nat duration

text \<open>
  The run-time environment: \<open>clock k\<close> is what the \<open>k\<close>-th call of \<^verbatim>\<open>time.Now()\<close> in the
  program returns, \<open>growcap\<close> the capacity policy of \<^verbatim>\<open>append\<close>.
\<close>

record rt =
  clock :: "nat \<Rightarrow> time"
  growcap :: "nat \<Rightarrow> nat \<Rightarrow> nat"

text \<open>
  The program state: the heap of timer objects and the next free address, the world of
  the callbacks, the number of clock readings taken, the package variable
  \<^verbatim>\<open>_scheduler\<close> (\<open>None\<close> is nil), the goroutines waiting to send on its queue, those
  left waiting on the queue of a scheduler that has stopped, and what was printed.
  \<open>fires\<close> is a record of the callback invocations made by the poll loop: the timer and
  the time passed to its \<^verbatim>\<open>tick\<close>.
\<close>

record ('a, 'w) sys =
  heap :: "addr \<Rightarrow> ('a, 'w) timer option"
  nalloc :: addr
  world :: 'w
  reads :: nat
  sched :: "scheduler option"
  pending :: "(addr \<times> sender) list"
  stranded :: "(addr \<times> sender) list"
  out :: "string list"
  fires :: "(addr \<times> time) list"

definition init :: "'w \<Rightarrow> ('a, 'w) sys" where
  "init w = \<lparr>heap = (\<lambda>a. None), nalloc = 0, world = w, reads = 0, sched = None,
             pending = [], stranded = [], out = [], fires = []\<rparr>"

text \<open>A computation of the poll loop ends normally with a value, or panics.\<close>

datatype ('r, 's) res = Ok 'r 's | Panic string 's

definition nil_deref :: string where
  "nil_deref = ''runtime error: invalid memory address or nil pointer dereference''"

definition out_of_range :: string where
  "out_of_range = ''runtime error: slice bounds out of range''"

text \<open>\<^verbatim>\<open>t.tick(time.Now())\<close> on the timer object \<open>tm\<close> at address \<open>a\<close>.\<close>

definition tick_obj ::
  "rt \<Rightarrow> addr \<Rightarrow> ('a, 'w) timer \<Rightarrow> ('a, 'w) sys \<Rightarrow> (unit, ('a, 'w) sys) res" where
  "tick_obj r a tm s =
     (let now = clock r (reads s);
          (tm', cr) = tick now tm (world s);
          s' = s\<lparr>heap := (heap s)(a \<mapsto> tm'),
                 world := world_after (world s) cr,
                 reads := Suc (reads s),
                 fires := fires s @ (if cr = None then [] else [(a, now)])\<rparr>
      in case cr of
           Some (Panicked p w') \<Rightarrow> Panic p s'
         | _ \<Rightarrow> Ok () s')"

text \<open>
  The body of \<^verbatim>\<open>for i, t := range s.timers\<close> for the element \<open>x\<close> at index \<open>i\<close>, with
  \<open>del\<close> the indices collected so far. A method call on a nil interface panics.
\<close>

definition sweep_one ::
  "rt \<Rightarrow> nat \<Rightarrow> addr option \<Rightarrow> nat list \<Rightarrow> ('a, 'w) sys \<Rightarrow> (nat list, ('a, 'w) sys) res" where
  "sweep_one r i x del s =
     (case x of
        None \<Rightarrow> Panic nil_deref s
      | Some a \<Rightarrow>
          (case heap s a of
             None \<Rightarrow> Panic nil_deref s
           | Some tm \<Rightarrow>
               if getInterval tm = None then
                 (case tick_obj r a tm s of
                    Ok u s' \<Rightarrow> Ok (del @ [i]) s'
                  | Panic p s' \<Rightarrow> Panic p s')
               else if getStop tm then Ok (del @ [i]) s
               else
                 (case tick_obj r a tm s of
                    Ok u s' \<Rightarrow> Ok del s'
                  | Panic p s' \<Rightarrow> Panic p s')))"

fun range_timers ::
  "rt \<Rightarrow> (nat \<times> addr option) list \<Rightarrow> nat list \<Rightarrow> ('a, 'w) sys \<Rightarrow> (nat list, ('a, 'w) sys) res" where
  "range_timers r [] del s = Ok del s"
| "range_timers r ((i, x) # ixs) del s =
     (case sweep_one r i x del s of
        Ok del' s' \<Rightarrow> range_timers r ixs del' s'
      | Panic p s' \<Rightarrow> Panic p s')"

text \<open>
  The \<^verbatim>\<open>default\<close> branch of the \<^verbatim>\<open>select\<close>: one sweep over the live timers, then the
  removal loop. The result is the new value of \<^verbatim>\<open>s.timers\<close>.
\<close>

definition sweep :: "rt \<Rightarrow> slice \<Rightarrow> ('a, 'w) sys \<Rightarrow> (slice, ('a, 'w) sys) res" where
  "sweep r ts s =
     (case range_timers r (enumerate 0 (elems ts)) [] s of
        Panic p s' \<Rightarrow> Panic p s'
      | Ok del s' \<Rightarrow>
          (case remove_all (growcap r) del ts of
             (ts', True) \<Rightarrow> Ok ts' s'
           | (ts', False) \<Rightarrow> Panic out_of_range (s'\<lparr>sched := map_option (\<lambda>sc. sc\<lparr>timers := ts'\<rparr>) (sched s')\<rparr>)))"

text \<open>
  Which case of the \<^verbatim>\<open>select\<close> an iteration of the loop takes: a stop signal, the
  timer of the \<open>k\<close>-th waiting sender, or the default branch.
\<close>

datatype choice = Stop | Recv nat | Default

text \<open>
  A sender can complete its send only once its sleep is over: \<^verbatim>\<open>time.Sleep(d)\<close> lasts
  at least \<open>d\<close>, counted from the call, which is not before the last clock reading that
  preceded it; the next reading after the receive is not before the end of the sleep.
\<close>

fun ready :: "rt \<Rightarrow> nat \<Rightarrow> sender \<Rightarrow> bool" where
  "ready r k Caller = True"
| "ready r k (Waiter j d) = (j = 0 \<or> Add (clock r (j - 1)) d \<le> clock r k)"

text \<open>
  One iteration of the loop of \<^verbatim>\<open>poll\<close>, with what follows it when the loop ends.
  \<open>None\<close> means that the iteration cannot happen: no poll goroutine is running, or the
  sender chosen is not there or still asleep. After a stop signal the loop breaks and
  \<^verbatim>\<open>_scheduler = nil\<close> runs. A panic unwinds out of the loop to the deferred function,
  which recovers it and prints; \<^verbatim>\<open>poll\<close> then returns, and the assignment
  \<^verbatim>\<open>_scheduler = nil\<close> is not reached.
\<close>

definition poll_iter :: "rt \<Rightarrow> choice \<Rightarrow> ('a, 'w) sys \<Rightarrow> ('a, 'w) sys option" where
  "poll_iter r ch s =
     (case sched s of
        None \<Rightarrow> None
      | Some sc \<Rightarrow>
          if \<not> polling sc then None
          else
            (case ch of
               Stop \<Rightarrow> Some (s\<lparr>sched := None, pending := [], stranded := stranded s @ pending s\<rparr>)
             | Recv k \<Rightarrow>
                 if k < length (pending s) \<and> ready r (reads s) (snd (pending s ! k)) then
                   Some (s\<lparr>sched := Some (sc\<lparr>timers :=
                                append_sl (growcap r) (timers sc) [Some (fst (pending s ! k))]\<rparr>),
                            pending := take k (pending s) @ drop (Suc k) (pending s)\<rparr>)
                 else None
             | Default \<Rightarrow>
                 (case sweep r (timers sc) s of
                    Ok ts' s' \<Rightarrow> Some (s'\<lparr>sched := Some (sc\<lparr>timers := ts'\<rparr>)\<rparr>)
                  | Panic p s' \<Rightarrow>
                      Some (s'\<lparr>sched := map_option (\<lambda>sc'. sc'\<lparr>polling := False\<rparr>) (sched s'),
                               out := out s' @ [''recovered from panic: '' @ p]\<rparr>))))"

section \<open>Registration\<close>

text \<open>
  \<^verbatim>\<open>instance()\<close> creates the scheduler and starts its poll goroutine when
  \<^verbatim>\<open>_scheduler\<close> is nil (\<open>instance\<close> is a keyword of the prover, hence the longer name).
\<close>

definition instance_sched :: "('a, 'w) sys \<Rightarrow> ('a, 'w) sys" where
  "instance_sched s =
     (case sched s of
        None \<Rightarrow> s\<lparr>sched := Some \<lparr>timers = make0, polling = True\<rparr>\<rparr>
      | Some sc \<Rightarrow> s)"

text \<open>
  \<^verbatim>\<open>queue(t, delay)\<close>: with a delay, a new goroutine sleeps and then sends; without,
  the send is made by the calling goroutine itself.
\<close>

definition queue :: "addr \<Rightarrow> duration option \<Rightarrow> ('a, 'w) sys \<Rightarrow> ('a, 'w) sys" where
  "queue a delay s =
     (let s1 = instance_sched s in
      case delay of
        Some d \<Rightarrow> s1\<lparr>pending := pending s1 @ [(a, Waiter (reads s1) d)]\<rparr>
      | None \<Rightarrow> s1\<lparr>pending := pending s1 @ [(a, Caller)]\<rparr>)"

text \<open>
  The constructors allocate the timer, then run the deferred \<^verbatim>\<open>queue(t, delay)\<close>, which
  happens before the function returns to its caller. The result is the pointer returned
  and the state in which the deferred call has got as far as it can on its own: a
  \<open>Caller\<close> entry among the waiting senders stands for a constructor that has not
  returned yet.
\<close>

definition NewIntervalTimer ::
  "rt \<Rightarrow> ('a, 'w) callback \<Rightarrow> 'a \<Rightarrow> duration option \<Rightarrow> duration \<Rightarrow> ('a, 'w) sys
     \<Rightarrow> addr \<times> ('a, 'w) sys" where
  "NewIntervalTimer r fn v delay interval s =
     (let t = \<lparr>it_c = clock r (reads s),
               it_i = interval,
               it_n = Add (clock r (Suc (reads s))) interval,
               it_fn = fn, it_t = v, it_s = False\<rparr>;
          a = nalloc s;
          s' = s\<lparr>heap := (heap s)(a \<mapsto> Interval t), nalloc := Suc a, reads := Suc (Suc (reads s))\<rparr>
      in (a, queue a delay s'))"

definition NewOneTimer ::
  "rt \<Rightarrow> ('a, 'w) callback \<Rightarrow> 'a \<Rightarrow> duration option \<Rightarrow> ('a, 'w) sys \<Rightarrow> addr \<times> ('a, 'w) sys" where
  "NewOneTimer r fn v delay s =
     (let t = \<lparr>ot_c = clock r (reads s), ot_fn = fn, ot_t = v\<rparr>;
          a = nalloc s;
          s' = s\<lparr>heap := (heap s)(a \<mapsto> One t), nalloc := Suc a, reads := Suc (reads s)\<rparr>
      in (a, queue a delay s'))"

section \<open>Runs of the program\<close>

text \<open>
  What happens in the program, one event at a time: a goroutine calls a constructor, or
  the poll loop makes an iteration.
\<close>

datatype ('a, 'w) event =
    CallNewOneTimer "('a, 'w) callback" 'a "duration option"
  | CallNewIntervalTimer "('a, 'w) callback" 'a "duration option" duration
  | Poll choice

fun step :: "rt \<Rightarrow> ('a, 'w) event \<Rightarrow> ('a, 'w) sys \<Rightarrow> ('a, 'w) sys option" where
  "step r (CallNewOneTimer fn v delay) s = Some (snd (NewOneTimer r fn v delay s))"
| "step r (CallNewIntervalTimer fn v delay interval) s =
     Some (snd (NewIntervalTimer r fn v delay interval s))"
| "step r (Poll ch) s = poll_iter r ch s"

fun run :: "rt \<Rightarrow> ('a, 'w) event list \<Rightarrow> ('a, 'w) sys \<Rightarrow> ('a, 'w) sys option" where
  "run r [] s = Some s"
| "run r (e # es) s = (case step r e s of None \<Rightarrow> None | Some s' \<Rightarrow> run r es s')"


section \<open>Auxiliary notions for the proofs\<close>

text \<open>The state in which a computation of the poll loop ends, normally or not.\<close>

fun res_state :: "('r, 's) res \<Rightarrow> 's" where
  "res_state (Ok v s) = s"
| "res_state (Panic p s) = s"

text \<open>
  What ticking timers never touches: the scheduler, the output, the waiting senders and
  the allocator; the count of clock readings only grows.
\<close>

definition same_frame :: "('a, 'w) sys \<Rightarrow> ('a, 'w) sys \<Rightarrow> bool" where
  "same_frame s s' =
     (sched s' = sched s \<and> out s' = out s \<and> pending s' = pending s \<and> stranded s' = stranded s
      \<and> nalloc s' = nalloc s \<and> reads s \<le> reads s')"

section \<open>Notions for whole runs\<close>

text \<open>
  The clock never goes back: \<^verbatim>\<open>time.Now()\<close> carries a monotonic reading, and
  \<^verbatim>\<open>After\<close> compares those.
\<close>

definition mono_clock :: "rt \<Rightarrow> bool" where
  "mono_clock r = (\<forall>j k. j \<le> k \<longrightarrow> clock r j \<le> clock r k)"

text \<open>The timers a slice can still reach: every pointer in its backing array.\<close>

definition addrs_of :: "slice \<Rightarrow> addr set" where
  "addrs_of ts = {b. Some b \<in> set (sl_arr ts)}"

text \<open>The same for the slice of the current scheduler.\<close>

definition live_addrs :: "('a, 'w) sys \<Rightarrow> addr set" where
  "live_addrs s = (case sched s of None \<Rightarrow> {} | Some sc \<Rightarrow> addrs_of (timers sc))"

text \<open>The times at which the poll loop invoked the callback of the timer at \<open>a\<close>, oldest first.\<close>

definition fire_times :: "addr \<Rightarrow> ('a, 'w) sys \<Rightarrow> time list" where
  "fire_times a s = map snd (filter (\<lambda>e. fst e = a) (fires s))"

text \<open>A scheduler whose poll goroutine has ended after a recovered panic.\<close>

definition dead :: "('a, 'w) sys \<Rightarrow> bool" where
  "dead s = (case sched s of None \<Rightarrow> False | Some sc \<Rightarrow> \<not> polling sc)"

text \<open>Whether a computation of the poll loop ended normally.\<close>

fun res_ok :: "('r, 's) res \<Rightarrow> bool" where
  "res_ok (Ok v s) = True"
| "res_ok (Panic p s) = False"

text \<open>An address the scheduler has not met: never fired, not live, not waiting to be sent.\<close>

definition unseen :: "addr \<Rightarrow> ('a, 'w) sys \<Rightarrow> bool" where
  "unseen a s = (fire_times a s = [] \<and> a \<notin> live_addrs s \<and> a \<notin> fst ` set (pending s))"

text \<open>
  The invariant of an interval timer at \<open>a\<close>, created at \<open>c\<close> with interval \<open>i\<close> and not to
  be ticked before \<open>L\<close>: its fire times so far are \<open>i\<close> apart, after \<open>c + i\<close> and not
  before \<open>L\<close>; the clock has passed \<open>c\<close>, and has passed \<open>L\<close> if the timer is live; a
  sender still holding it is a sleeper that cannot wake before \<open>L\<close>. While no callback of
  the timer has panicked (\<open>strong\<close>), its next due time is at least \<open>c + i\<close> and at least
  \<open>i\<close> after its last fire.
\<close>

definition tracked ::
  "rt \<Rightarrow> addr \<Rightarrow> time \<Rightarrow> duration \<Rightarrow> time \<Rightarrow> bool \<Rightarrow> ('a, 'w) sys \<Rightarrow> bool" where
  "tracked r a c i L strong s =
     ((\<exists>tm. heap s a = Some (Interval tm) \<and> it_c tm = c \<and> it_i tm = i
            \<and> (strong \<longrightarrow> c + i \<le> it_n tm
                 \<and> (fire_times a s \<noteq> [] \<longrightarrow> last (fire_times a s) + i \<le> it_n tm)))
      \<and> a < nalloc s
      \<and> separated i (fire_times a s)
      \<and> (\<forall>t\<in>set (fire_times a s). c + i < t \<and> L \<le> t)
      \<and> c \<le> clock r (reads s)
      \<and> (a \<in> live_addrs s \<longrightarrow> L \<le> clock r (reads s))
      \<and> (\<forall>sd. (a, sd) \<in> set (pending s) \<longrightarrow>
             L \<le> clock r (reads s) \<or> (\<exists>j d. sd = Waiter j d \<and> 0 < j \<and> L \<le> clock r (j - 1) + d)))"

section \<open>Sample inputs\<close>

text \<open>
  Callbacks: one that does nothing, one that appends its payload to a list of results,
  one that panics. Clocks: one that advances by a nanosecond per reading, one that
  advances by a hundred. Both environments give \<^verbatim>\<open>append\<close> exactly the capacity it
  needs.
\<close>

definition quiet :: "(nat, nat) callback" where
  "quiet v w = Returned w"

definition app :: "(string, string list) callback" where
  "app v w = Returned (w @ [v])"

definition boom :: "(string, string list) callback" where
  "boom v w = Panicked ''boom'' w"

definition ticking :: rt where
  "ticking = \<lparr>clock = (\<lambda>k. int k), growcap = (\<lambda>c m. m)\<rparr>"

definition coarse :: rt where
  "coarse = \<lparr>clock = (\<lambda>k. int k * 100), growcap = (\<lambda>c m. m)\<rparr>"

text \<open>An interval timer with interval 10, due after instant 10.\<close>

definition every10 :: "(nat, nat) IntervalTimer" where
  "every10 = \<lparr>it_c = 0, it_i = 10, it_n = 10, it_fn = quiet, it_t = 7, it_s = False\<rparr>"


text \<open>
  A running scheduler with two live one-shot timers, the first with a callback that
  panics, the second with one that appends \<open>''b''\<close>.
\<close>

definition two_live :: scheduler where
  "two_live = \<lparr>timers = \<lparr>sl_arr = [Some 0, Some 1], sl_len = 2\<rparr>, polling = True\<rparr>"

definition faulty_first :: "(string, string list) sys" where
  "faulty_first =
     \<lparr>heap = (\<lambda>a. None)(0 \<mapsto> One \<lparr>ot_c = 0, ot_fn = boom, ot_t = ''a''\<rparr>,
                         1 \<mapsto> One \<lparr>ot_c = 1, ot_fn = app, ot_t = ''b''\<rparr>),
      nalloc = 2, world = [], reads = 2, sched = Some two_live,
      pending = [], stranded = [], out = [], fires = []\<rparr>"



section \<open>Facts about the model\<close>

lemmas gotimer_defs =
  After_def Add_def IntervalTimer_getCreated_def IntervalTimer_getInterval_def
  IntervalTimer_getStop_def IntervalTimer_tick_def OneTimer_getCreated_def
  OneTimer_getInterval_def OneTimer_getStop_def OneTimer_tick_def world_after_def
  cap_def elems_def make0_def slice_to_def append_sl_def remove_at_def
  init_def tick_obj_def sweep_one_def sweep_def poll_iter_def instance_sched_def queue_def
  NewIntervalTimer_def NewOneTimer_def Let_def

subsection \<open>Ticks of one interval timer\<close>

lemma tick_seq_quiet:
  "\<forall>t\<in>set ts. \<not> After t (it_n self) \<Longrightarrow> tick_seq ts self w = ([], self, w)"
  by (induction ts) (simp_all add: IntervalTimer_tick_def)

subsection \<open>What a sweep leaves alone\<close>

lemma same_frame_refl: "same_frame s s"
  by (simp add: same_frame_def)

lemma same_frame_trans: "same_frame s s1 \<Longrightarrow> same_frame s1 s2 \<Longrightarrow> same_frame s s2"
  by (simp add: same_frame_def)

lemma tick_obj_frame: "same_frame s (res_state (tick_obj r a tm s))"
  by (simp add: tick_obj_def same_frame_def Let_def split: prod.splits option.splits cb_result.splits)

lemma sweep_one_frame: "same_frame s (res_state (sweep_one r i x del s))"
proof -
  have *: "same_frame s (res_state (case tick_obj r a tm s of Ok u s' \<Rightarrow> Ok d s' | Panic p s' \<Rightarrow> Panic p s'))"
    for a tm and d :: "nat list"
    using tick_obj_frame[of s r a tm] by (cases "tick_obj r a tm s") simp_all
  show ?thesis
    unfolding sweep_one_def
    by (simp add: * same_frame_refl split: option.splits)
qed

lemma range_timers_frame: "same_frame s (res_state (range_timers r ixs del s))"
proof (induction ixs arbitrary: del s)
  case Nil
  then show ?case by (simp add: same_frame_refl)
next
  case (Cons ix ixs)
  obtain i x where ix: "ix = (i, x)" by (cases ix)
  show ?case
  proof (cases "sweep_one r i x del s")
    case (Ok d1 s1)
    have "same_frame s s1" using sweep_one_frame[of s r i x del] Ok by simp
    moreover have "same_frame s1 (res_state (range_timers r ixs d1 s1))" by (rule Cons.IH)
    ultimately show ?thesis using Ok ix by (simp add: same_frame_trans)
  next
    case (Panic q s1)
    then show ?thesis using sweep_one_frame[of s r i x del] ix by simp
  qed
qed

text \<open>A panic in the body of the range loop ends the loop: the later elements are not visited.\<close>

lemma range_timers_stops:
  "range_timers r ixs1 del0 s = Ok del s1 \<Longrightarrow> sweep_one r i x del s1 = Panic p s2 \<Longrightarrow>
   range_timers r (ixs1 @ (i, x) # ixs2) del0 s = Panic p s2"
  by (induction ixs1 arbitrary: del0 s) (auto split: res.splits)

text \<open>A timer that is ticked and whose callback panics makes the loop body panic.\<close>

lemma sweep_one_callback_panics:
  assumes "heap s a = Some tm" and "getInterval tm = None \<or> \<not> getStop tm"
    and "tick (clock r (reads s)) tm (world s) = (tm', Some (Panicked p w'))"
  shows "sweep_one r i (Some a) del s =
           Panic p (s\<lparr>heap := (heap s)(a \<mapsto> tm'), world := w', reads := Suc (reads s),
                      fires := fires s @ [(a, clock r (reads s))]\<rparr>)"
  using assms by (auto simp: sweep_one_def tick_obj_def world_after_def)

subsection \<open>Slices: no operation reaches a timer the array did not hold\<close>

lemma addrs_of_append_sl:
  "addrs_of (append_sl g ts xs) \<subseteq> addrs_of ts \<union> {b. Some b \<in> set xs}"
proof -
  have "set (take n ys) \<subseteq> set ys" and "set (drop m ys) \<subseteq> set ys" for n m and ys :: "addr option list"
    by (rule set_take_subset, rule set_drop_subset)
  then show ?thesis
    by (auto simp: addrs_of_def append_sl_def Let_def dest: in_set_takeD in_set_dropD)
qed

lemma addrs_of_elems: "Some b \<in> set (elems ts) \<Longrightarrow> b \<in> addrs_of ts"
  by (auto simp: addrs_of_def elems_def dest: in_set_takeD)

lemma addrs_of_remove_at:
  "remove_at g idx ts = Some ts' \<Longrightarrow> addrs_of ts' \<subseteq> addrs_of ts"
proof -
  assume h: "remove_at g idx ts = Some ts'"
  then obtain dst src where d: "slice_to ts idx = Some dst" and s: "slice_to ts (idx + 1) = Some src"
    and t: "ts' = append_sl g dst (elems src)"
    by (auto simp: remove_at_def split: option.splits)
  have "sl_arr dst = sl_arr ts" "sl_arr src = sl_arr ts"
    using d s by (auto simp: slice_to_def split: if_splits)
  then have "addrs_of dst = addrs_of ts" and "{b. Some b \<in> set (elems src)} \<subseteq> addrs_of ts"
    by (auto simp: addrs_of_def elems_def dest: in_set_takeD)
  then show ?thesis using addrs_of_append_sl[of g dst "elems src"] t by blast
qed

lemma addrs_of_remove_all:
  "addrs_of (fst (remove_all g del ts)) \<subseteq> addrs_of ts"
proof (induction del arbitrary: ts)
  case Nil
  then show ?case by simp
next
  case (Cons idx del)
  show ?case
  proof (cases "remove_at g idx ts")
    case None
    then show ?thesis by simp
  next
    case (Some ts1)
    then show ?thesis using Cons.IH[of ts1] addrs_of_remove_at[OF Some] by auto
  qed
qed


text \<open>
  What the body of the removal loop computes, for an index within the capacity: the
  elements before \<open>idx\<close> followed by the elements up to and including \<open>idx\<close>.
\<close>

lemma remove_at_elems:
  assumes "Suc idx \<le> cap ts"
  shows "\<exists>ts'. remove_at g idx ts = Some ts'
           \<and> elems ts' = take idx (sl_arr ts) @ take (Suc idx) (sl_arr ts)
           \<and> sl_len ts' = 2 * idx + 1"
proof -
  let ?xs = "take (Suc idx) (sl_arr ts)"
  have l: "length ?xs = Suc idx" "length (take idx (sl_arr ts)) = idx"
    using assms by (simp_all add: cap_def)
  have "elems (append_sl g (ts\<lparr>sl_len := idx\<rparr>) ?xs) = take idx (sl_arr ts) @ ?xs
        \<and> sl_len (append_sl g (ts\<lparr>sl_len := idx\<rparr>) ?xs) = 2 * idx + 1"
    using l by (simp add: append_sl_def elems_def cap_def Let_def)
  moreover have "remove_at g idx ts = Some (append_sl g (ts\<lparr>sl_len := idx\<rparr>) ?xs)"
    using assms by (simp add: remove_at_def slice_to_def elems_def)
  ultimately show ?thesis by simp
qed

subsection \<open>The invariant under a tick\<close>

lemma separated_snoc:
  "separated i (fs @ [t]) = (separated i fs \<and> (fs \<noteq> [] \<longrightarrow> i \<le> t - last fs))"
  by (induction i fs rule: separated.induct) auto

lemma fire_times_snoc:
  "fire_times a (s\<lparr>fires := fires s @ [(b, t)]\<rparr>) = fire_times a s @ (if b = a then [t] else [])"
  by (simp add: fire_times_def)

lemma tick_obj_other:
  assumes "b \<noteq> a"
  shows "heap (res_state (tick_obj r b tmb s)) a = heap s a"
    and "fire_times a (res_state (tick_obj r b tmb s)) = fire_times a s"
  using assms
  by (simp_all add: tick_obj_def Let_def fire_times_def split: prod.splits option.splits cb_result.splits)

lemma tracked_weaken: "tracked r a c i L True s \<Longrightarrow> tracked r a c i L strong s"
  by (auto simp: tracked_def)

lemma tracked_weaken': "tracked r a c i L st s \<Longrightarrow> (st' \<longrightarrow> st) \<Longrightarrow> tracked r a c i L st' s"
  by (auto simp: tracked_def)

lemma tracked_transfer:
  assumes "tracked r a c i L strong s" and "mono_clock r"
    and "heap s' a = heap s a" and "fire_times a s' = fire_times a s"
    and "nalloc s \<le> nalloc s'" and "reads s \<le> reads s'"
    and "a \<in> live_addrs s' \<Longrightarrow> a \<notin> live_addrs s \<Longrightarrow> L \<le> clock r (reads s')"
    and "\<And>sd. (a, sd) \<in> set (pending s') \<Longrightarrow> (a, sd) \<notin> set (pending s) \<Longrightarrow>
           L \<le> clock r (reads s') \<or> (\<exists>j d. sd = Waiter j d \<and> 0 < j \<and> L \<le> clock r (j - 1) + d)"
  shows "tracked r a c i L strong s'"
proof -
  have le: "clock r (reads s) \<le> clock r (reads s')"
    using assms(2,6) by (simp add: mono_clock_def)
  have 1: "c \<le> clock r (reads s')"
    using assms(1) le by (simp add: tracked_def)
  have 2: "a \<in> live_addrs s' \<longrightarrow> L \<le> clock r (reads s')"
    using assms(1,7) le by (fastforce simp: tracked_def)
  have 3: "\<forall>sd. (a, sd) \<in> set (pending s') \<longrightarrow>
             L \<le> clock r (reads s') \<or> (\<exists>j d. sd = Waiter j d \<and> 0 < j \<and> L \<le> clock r (j - 1) + d)"
  proof (intro allI impI)
    fix sd assume in': "(a, sd) \<in> set (pending s')"
    show "L \<le> clock r (reads s') \<or> (\<exists>j d. sd = Waiter j d \<and> 0 < j \<and> L \<le> clock r (j - 1) + d)"
    proof (cases "(a, sd) \<in> set (pending s)")
      case True
      then have "L \<le> clock r (reads s) \<or> (\<exists>j d. sd = Waiter j d \<and> 0 < j \<and> L \<le> clock r (j - 1) + d)"
        using assms(1) by (simp add: tracked_def)
      then show ?thesis using le by auto
    next
      case False
      then show ?thesis using assms(8) in' by blast
    qed
  qed
  have 4: "a < nalloc s'"
    using assms(1,5) by (simp add: tracked_def)
  show ?thesis
    using assms(1) 1 2 3 4 unfolding tracked_def assms(3) assms(4) by blast
qed

lemma tracked_same_frame:
  assumes "tracked r a c i L strong s" and "mono_clock r"
    and "heap s' a = heap s a" and "fire_times a s' = fire_times a s"
    and "same_frame s s'"
  shows "tracked r a c i L strong s'"
proof -
  have "live_addrs s' = live_addrs s" "pending s' = pending s" "nalloc s \<le> nalloc s'" "reads s \<le> reads s'"
    using assms(5) by (simp_all add: live_addrs_def same_frame_def)
  then show ?thesis
    using tracked_transfer[OF assms(1,2,3,4)] by simp
qed

lemma tick_obj_tracked_other:
  assumes "tracked r a c i L True s" and "mono_clock r" and "b \<noteq> a"
  shows "tracked r a c i L True (res_state (tick_obj r b tmb s))"
  using tracked_same_frame[OF assms(1,2) tick_obj_other(1)[OF assms(3)] tick_obj_other(2)[OF assms(3)]
      tick_obj_frame] .

lemma tick_obj_tracked_self:
  assumes tr: "tracked r a c i L True s" and mono: "mono_clock r"
    and hp: "heap s a = Some tma" and due: "L \<le> clock r (reads s)"
  shows "tracked r a c i L (res_ok (tick_obj r a tma s)) (res_state (tick_obj r a tma s))"
proof -
  obtain tm where tm: "tma = Interval tm" "it_c tm = c" "it_i tm = i" "c + i \<le> it_n tm"
    "fire_times a s \<noteq> [] \<longrightarrow> last (fire_times a s) + i \<le> it_n tm"
    using tr hp by (auto simp: tracked_def)
  have rest: "a < nalloc s" "separated i (fire_times a s)"
    "\<forall>t\<in>set (fire_times a s). c + i < t \<and> L \<le> t" "c \<le> clock r (reads s)"
    using tr by (auto simp: tracked_def)
  let ?now = "clock r (reads s)"
  have le: "?now \<le> clock r (Suc (reads s))"
    using mono by (simp add: mono_clock_def)
  let ?R = "tick_obj r a tma s"
  have fr: "same_frame s (res_state ?R)" by (rule tick_obj_frame)
  have live: "live_addrs (res_state ?R) = live_addrs s"
    using fr by (simp add: live_addrs_def same_frame_def)
  have pn: "pending (res_state ?R) = pending s" "nalloc (res_state ?R) = nalloc s"
    using fr by (simp_all add: same_frame_def)
  have rd: "reads (res_state ?R) = Suc (reads s)"
    by (simp add: tick_obj_def Let_def split: prod.splits option.splits cb_result.splits)
  have common: "c \<le> clock r (reads (res_state ?R))"
    "a \<in> live_addrs (res_state ?R) \<longrightarrow> L \<le> clock r (reads (res_state ?R))"
    "\<forall>sd. (a, sd) \<in> set (pending (res_state ?R)) \<longrightarrow>
             L \<le> clock r (reads (res_state ?R))
             \<or> (\<exists>j d. sd = Waiter j d \<and> 0 < j \<and> L \<le> clock r (j - 1) + d)"
    "a < nalloc (res_state ?R)"
    using rest due le unfolding live pn rd by auto
  show ?thesis
  proof (cases "After ?now (it_n tm)")
    case False
    then have R: "?R = Ok () (s\<lparr>heap := (heap s)(a \<mapsto> tma), world := world s, reads := Suc (reads s),
                                  fires := fires s\<rparr>)"
      using tm(1) by (simp add: tick_obj_def IntervalTimer_tick_def world_after_def Let_def)
    have h: "heap (res_state ?R) a = Some (Interval tm)" "fire_times a (res_state ?R) = fire_times a s"
      using R tm(1) by (simp_all add: fire_times_def)
    show ?thesis
      unfolding tracked_def using common h tm rest R by simp
  next
    case True
    then have gt: "it_n tm < ?now" by (simp add: After_def)
    have sep: "separated i (fire_times a s @ [?now])"
      using rest(2) tm(5) gt by (auto simp: separated_snoc)
    have bnd: "\<forall>t\<in>set (fire_times a s @ [?now]). c + i < t \<and> L \<le> t"
      using rest(3) due tm(4) gt by auto
    show ?thesis
    proof (cases "it_fn tm (it_t tm) (world s)")
      case (Returned w')
      then have R: "?R = Ok () (s\<lparr>heap := (heap s)(a \<mapsto> Interval (tm\<lparr>it_n := Add ?now (it_i tm)\<rparr>)),
                                    world := w', reads := Suc (reads s),
                                    fires := fires s @ [(a, ?now)]\<rparr>)"
        using tm(1) True by (simp add: tick_obj_def IntervalTimer_tick_def world_after_def Let_def)
      have h: "heap (res_state ?R) a = Some (Interval (tm\<lparr>it_n := Add ?now (it_i tm)\<rparr>))"
        "fire_times a (res_state ?R) = fire_times a s @ [?now]"
        using R by (simp_all add: fire_times_def)
      have n: "c + i \<le> Add ?now (it_i tm)" "last (fire_times a s @ [?now]) + i \<le> Add ?now (it_i tm)"
        using rest(4) tm(3) by (simp_all add: Add_def)
      show ?thesis
        unfolding tracked_def h using common sep bnd n tm(2,3) R by simp
    next
      case (Panicked p w')
      then have R: "?R = Panic p (s\<lparr>heap := (heap s)(a \<mapsto> tma), world := w', reads := Suc (reads s),
                                      fires := fires s @ [(a, ?now)]\<rparr>)"
        using tm(1) True by (simp add: tick_obj_def IntervalTimer_tick_def world_after_def Let_def)
      have h: "heap (res_state ?R) a = Some (Interval tm)"
        "fire_times a (res_state ?R) = fire_times a s @ [?now]"
        using R tm(1) by (simp_all add: fire_times_def)
      show ?thesis
        unfolding tracked_def h using common sep bnd tm(2,3) R by simp
    qed
  qed
qed


subsection \<open>The invariant under the range loop\<close>

lemma res_rewrap:
  "res_ok (case R of Ok u s' \<Rightarrow> Ok d s' | Panic p s' \<Rightarrow> Panic p s') = res_ok R"
  "res_state (case R of Ok u s' \<Rightarrow> Ok d s' | Panic p s' \<Rightarrow> Panic p s') = res_state R"
  by (cases R; simp)+

lemma sweep_one_other:
  assumes "x \<noteq> Some a"
  shows "heap (res_state (sweep_one r i x del s)) a = heap s a"
    and "fire_times a (res_state (sweep_one r i x del s)) = fire_times a s"
proof -
  have "heap (res_state (sweep_one r i x del s)) a = heap s a
        \<and> fire_times a (res_state (sweep_one r i x del s)) = fire_times a s"
  proof (cases x)
    case None
    then show ?thesis by (simp add: sweep_one_def)
  next
    case (Some b)
    then have ne: "b \<noteq> a" using assms by simp
    show ?thesis
      using Some
      by (simp add: sweep_one_def res_rewrap tick_obj_other[OF ne] split: option.splits)
  qed
  then show "heap (res_state (sweep_one r i x del s)) a = heap s a"
    and "fire_times a (res_state (sweep_one r i x del s)) = fire_times a s"
    by simp_all
qed

lemma range_timers_other:
  assumes "Some a \<notin> snd ` set ixs"
  shows "heap (res_state (range_timers r ixs del s)) a = heap s a
         \<and> fire_times a (res_state (range_timers r ixs del s)) = fire_times a s"
  using assms
proof (induction ixs arbitrary: del s)
  case Nil
  then show ?case by simp
next
  case (Cons ix ixs)
  obtain i x where ix: "ix = (i, x)" by (cases ix)
  have x: "x \<noteq> Some a" and rest: "Some a \<notin> snd ` set ixs"
    using Cons.prems ix by auto
  show ?case
  proof (cases "sweep_one r i x del s")
    case (Ok d1 s1)
    have "heap s1 a = heap s a" "fire_times a s1 = fire_times a s"
      using sweep_one_other[OF x, of r i del s] Ok by simp_all
    then show ?thesis using Cons.IH[OF rest, of d1 s1] Ok ix by simp
  next
    case (Panic p s1)
    then show ?thesis using sweep_one_other[OF x, of r i del s] ix by simp
  qed
qed

lemma sweep_one_tracked:
  assumes tr: "tracked r a c i L True s" and mono: "mono_clock r"
    and due: "x = Some a \<longrightarrow> L \<le> clock r (reads s)"
  shows "tracked r a c i L (res_ok (sweep_one r k x del s)) (res_state (sweep_one r k x del s))"
proof (cases x)
  case None
  then show ?thesis using tr by (simp add: sweep_one_def tracked_weaken)
next
  case (Some b)
  show ?thesis
  proof (cases "heap s b")
    case None
    then show ?thesis using tr Some by (simp add: sweep_one_def tracked_weaken)
  next
    case hp: (Some tmb)
    have t: "tracked r a c i L (res_ok (tick_obj r b tmb s)) (res_state (tick_obj r b tmb s))"
    proof (cases "b = a")
      case True
      then show ?thesis using tick_obj_tracked_self[OF tr mono, of tmb] hp due Some by simp
    next
      case False
      then show ?thesis using tick_obj_tracked_other[OF tr mono False, of tmb] by (simp add: tracked_weaken)
    qed
    show ?thesis
      using t tr Some hp by (simp add: sweep_one_def res_rewrap)
  qed
qed

lemma range_timers_tracked:
  assumes "tracked r a c i L True s" and "mono_clock r"
    and "Some a \<in> snd ` set ixs \<longrightarrow> L \<le> clock r (reads s)"
  shows "tracked r a c i L (res_ok (range_timers r ixs del s)) (res_state (range_timers r ixs del s))"
  using assms
proof (induction ixs arbitrary: del s)
  case Nil
  then show ?case by simp
next
  case (Cons ix ixs)
  obtain k x where ix: "ix = (k, x)" by (cases ix)
  have due: "x = Some a \<longrightarrow> L \<le> clock r (reads s)"
    using Cons.prems(3) ix by auto
  have one: "tracked r a c i L (res_ok (sweep_one r k x del s)) (res_state (sweep_one r k x del s))"
    by (rule sweep_one_tracked[OF Cons.prems(1,2) due])
  show ?case
  proof (cases "sweep_one r k x del s")
    case (Ok d1 s1)
    have t1: "tracked r a c i L True s1" using one Ok by simp
    have "same_frame s s1" using sweep_one_frame[of s r k x del] Ok by simp
    then have "clock r (reads s) \<le> clock r (reads s1)"
      using Cons.prems(2) by (simp add: same_frame_def mono_clock_def)
    then have d1: "Some a \<in> snd ` set ixs \<longrightarrow> L \<le> clock r (reads s1)"
      using Cons.prems(3) ix by auto
    show ?thesis using Cons.IH[OF t1 Cons.prems(2) d1, of d1] Ok ix by simp
  next
    case (Panic p s1)
    then show ?thesis using one ix by simp
  qed
qed


subsection \<open>The invariant under an iteration of the poll loop\<close>

lemma snd_set_enumerate: "snd ` set (enumerate n xs) = set xs"
  by (metis list.set_map map_snd_enumerate)

lemma poll_iter_enabled:
  "poll_iter r ch s = Some s' \<Longrightarrow> \<exists>sc. sched s = Some sc \<and> polling sc"
  by (auto simp: poll_iter_def split: option.splits if_splits)

lemma poll_iter_Default:
  assumes "sched s = Some sc" and "polling sc" and "poll_iter r Default s = Some s'"
  shows "\<exists>ts' pl. s' = (res_state (range_timers r (enumerate 0 (elems (timers sc))) [] s))
                          \<lparr>sched := Some \<lparr>timers = ts', polling = pl\<rparr>, out := out s'\<rparr>
                 \<and> addrs_of ts' \<subseteq> addrs_of (timers sc)
                 \<and> (pl \<longrightarrow> res_ok (range_timers r (enumerate 0 (elems (timers sc))) [] s))"
proof -
  let ?R = "range_timers r (enumerate 0 (elems (timers sc))) [] s"
  have fr: "sched (res_state ?R) = Some sc"
    using range_timers_frame[of s r "enumerate 0 (elems (timers sc))" "[]"] assms(1)
    by (simp add: same_frame_def)
  show ?thesis
  proof (cases ?R)
    case (Panic p s1)
    then have "s' = s1\<lparr>sched := Some \<lparr>timers = timers sc, polling = False\<rparr>, out := out s'\<rparr>"
      using assms fr by (auto simp: poll_iter_def sweep_def)
    then show ?thesis using Panic by auto
  next
    case (Ok del s1)
    obtain ts' ok where ra: "remove_all (growcap r) del (timers sc) = (ts', ok)"
      by (cases "remove_all (growcap r) del (timers sc)")
    have sub: "addrs_of ts' \<subseteq> addrs_of (timers sc)"
      using addrs_of_remove_all[of "growcap r" del "timers sc"] ra by simp
    have "s' = s1\<lparr>sched := Some \<lparr>timers = ts', polling = ok\<rparr>, out := out s'\<rparr>"
      using assms fr Ok ra by (cases ok) (auto simp: poll_iter_def sweep_def)
    then show ?thesis using Ok sub by auto
  qed
qed

text \<open>A sweep leaves a caller that is waiting to send where it is.\<close>

lemma blocked_until_received:
  "(b, Caller) \<in> set (pending s) \<Longrightarrow> poll_iter r Default s = Some s' \<Longrightarrow> (b, Caller) \<in> set (pending s')"
proof -
  assume a: "(b, Caller) \<in> set (pending s)" and it: "poll_iter r Default s = Some s'"
  obtain sc where sc: "sched s = Some sc" "polling sc"
    using poll_iter_enabled[OF it] by blast
  let ?R = "range_timers r (enumerate 0 (elems (timers sc))) [] s"
  obtain ts' pl where s': "s' = (res_state ?R)\<lparr>sched := Some \<lparr>timers = ts', polling = pl\<rparr>, out := out s'\<rparr>"
    using poll_iter_Default[OF sc] it by blast
  have fr: "same_frame s (res_state ?R)" by (rule range_timers_frame)
  have "pending s' = pending s"
    by (subst s') (use fr in \<open>simp add: same_frame_def\<close>)
  then show ?thesis using a by simp
qed

lemma poll_iter_tracked:
  assumes tr: "tracked r a c i L (\<not> dead s) s" and mono: "mono_clock r"
    and it: "poll_iter r ch s = Some s'"
  shows "tracked r a c i L (\<not> dead s') s'"
proof -
  obtain sc where sc: "sched s = Some sc" "polling sc"
    using poll_iter_enabled[OF it] by blast
  then have nd: "\<not> dead s" by (simp add: dead_def)
  then have tr1: "tracked r a c i L True s" using tr by simp
  show ?thesis
  proof (cases ch)
    case Stop
    then have s': "s' = s\<lparr>sched := None, pending := [], stranded := stranded s @ pending s\<rparr>"
      using it sc by (simp add: poll_iter_def)
    have "tracked r a c i L True s'"
      by (rule tracked_transfer[OF tr1 mono]) (simp_all add: s' fire_times_def live_addrs_def)
    then show ?thesis by (simp add: s' dead_def)
  next
    case (Recv k)
    let ?b = "fst (pending s ! k)"
    have k: "k < length (pending s)" "ready r (reads s) (snd (pending s ! k))"
      using it sc Recv by (auto simp: poll_iter_def split: if_splits)
    have s': "s' = s\<lparr>sched := Some (sc\<lparr>timers := append_sl (growcap r) (timers sc) [Some ?b]\<rparr>),
                     pending := take k (pending s) @ drop (Suc k) (pending s)\<rparr>"
      using it sc Recv k by (simp add: poll_iter_def)
    have live: "live_addrs s' \<subseteq> live_addrs s \<union> {?b}"
      using addrs_of_append_sl[of "growcap r" "timers sc" "[Some ?b]"] sc
      by (auto simp: s' live_addrs_def)
    have pend: "set (pending s') \<subseteq> set (pending s)"
      by (auto simp: s' dest: in_set_takeD in_set_dropD)
    have due: "L \<le> clock r (reads s)" if "?b = a"
    proof -
      have "(a, snd (pending s ! k)) \<in> set (pending s)"
        using k(1) that by (metis nth_mem prod.collapse)
      then have "L \<le> clock r (reads s)
          \<or> (\<exists>j d. snd (pending s ! k) = Waiter j d \<and> 0 < j \<and> L \<le> clock r (j - 1) + d)"
        using tr1 by (simp add: tracked_def)
      then show ?thesis using k(2) by (auto simp: Add_def)
    qed
    have "tracked r a c i L True s'"
    proof (rule tracked_transfer[OF tr1 mono])
      show "a \<in> live_addrs s' \<Longrightarrow> a \<notin> live_addrs s \<Longrightarrow> L \<le> clock r (reads s')"
        using live due by (auto simp: s')
      show "\<And>sd. (a, sd) \<in> set (pending s') \<Longrightarrow> (a, sd) \<notin> set (pending s) \<Longrightarrow>
           L \<le> clock r (reads s') \<or> (\<exists>j d. sd = Waiter j d \<and> 0 < j \<and> L \<le> clock r (j - 1) + d)"
        using pend by blast
    qed (simp_all add: s' fire_times_def)
    then show ?thesis using sc by (simp add: s' dead_def)
  next
    case Default
    let ?R = "range_timers r (enumerate 0 (elems (timers sc))) [] s"
    obtain ts' pl where s': "s' = (res_state ?R)\<lparr>sched := Some \<lparr>timers = ts', polling = pl\<rparr>, out := out s'\<rparr>"
      and sub: "addrs_of ts' \<subseteq> addrs_of (timers sc)" and pl: "pl \<longrightarrow> res_ok ?R"
      using poll_iter_Default[OF sc] it Default by blast
    have fr: "same_frame s (res_state ?R)" by (rule range_timers_frame)
    have due: "Some a \<in> snd ` set (enumerate 0 (elems (timers sc))) \<longrightarrow> L \<le> clock r (reads s)"
      using tr1 sc addrs_of_elems[of a "timers sc"]
      by (auto simp: snd_set_enumerate tracked_def live_addrs_def)
    have "tracked r a c i L (res_ok ?R) (res_state ?R)"
      by (rule range_timers_tracked[OF tr1 mono due])
    then have t1: "tracked r a c i L pl (res_state ?R)"
      using pl by (rule tracked_weaken')
    have live1: "live_addrs (res_state ?R) = addrs_of (timers sc)"
      using fr sc by (simp add: same_frame_def live_addrs_def)
    have "tracked r a c i L pl ((res_state ?R)\<lparr>sched := Some \<lparr>timers = ts', polling = pl\<rparr>, out := out s'\<rparr>)"
      by (rule tracked_transfer[OF t1 mono]) (use sub live1 in \<open>auto simp: fire_times_def live_addrs_def\<close>)
    then have "tracked r a c i L pl s'" using s' by simp
    moreover have "dead s' = (\<not> pl)"
      by (subst s') (simp add: dead_def)
    ultimately show ?thesis by simp
  qed
qed


subsection \<open>The invariant under registration, and along a run\<close>

lemma queue_effect:
  "heap (queue b delay s) = heap s" "fires (queue b delay s) = fires s"
  "nalloc (queue b delay s) = nalloc s" "reads (queue b delay s) = reads s"
  "live_addrs (queue b delay s) = live_addrs s" "dead (queue b delay s) = dead s"
  "pending (queue b delay s) =
     pending s @ [(b, case delay of None \<Rightarrow> Caller | Some d \<Rightarrow> Waiter (reads s) d)]"
  by (simp_all add: queue_def instance_sched_def Let_def live_addrs_def dead_def make0_def addrs_of_def
      split: option.splits)

lemma fire_times_queue: "fire_times a (queue b delay s) = fire_times a s"
  by (simp add: fire_times_def queue_effect)

lemma constructor_tracked:
  assumes tr: "tracked r a c i L (\<not> dead s) s" and mono: "mono_clock r"
    and s': "s' = queue (nalloc s) delay (s\<lparr>heap := (heap s)(nalloc s \<mapsto> tm), nalloc := Suc (nalloc s),
                                             reads := reads s + k\<rparr>)"
  shows "tracked r a c i L (\<not> dead s') s'"
proof -
  have ne: "a \<noteq> nalloc s" using tr by (auto simp: tracked_def)
  have d: "dead s' = dead s" by (simp add: s' queue_effect) (simp add: dead_def)
  have "tracked r a c i L (\<not> dead s) s'"
  proof (rule tracked_transfer[OF tr mono])
    show "heap s' a = heap s a" using ne by (simp add: s' queue_effect)
    show "fire_times a s' = fire_times a s" by (simp add: s' fire_times_queue) (simp add: fire_times_def)
    show "nalloc s \<le> nalloc s'" by (simp add: s' queue_effect)
    show "reads s \<le> reads s'" by (simp add: s' queue_effect)
    show "a \<in> live_addrs s' \<Longrightarrow> a \<notin> live_addrs s \<Longrightarrow> L \<le> clock r (reads s')"
      by (simp add: s' queue_effect) (simp add: live_addrs_def)
    show "\<And>sd. (a, sd) \<in> set (pending s') \<Longrightarrow> (a, sd) \<notin> set (pending s) \<Longrightarrow>
           L \<le> clock r (reads s') \<or> (\<exists>j d. sd = Waiter j d \<and> 0 < j \<and> L \<le> clock r (j - 1) + d)"
      using ne by (simp add: s' queue_effect)
  qed
  then show ?thesis using d by simp
qed

lemma step_tracked:
  assumes tr: "tracked r a c i L (\<not> dead s) s" and mono: "mono_clock r"
    and st: "step r e s = Some s'"
  shows "tracked r a c i L (\<not> dead s') s'"
proof (cases e)
  case (CallNewOneTimer fn v delay)
  then have "s' = queue (nalloc s) delay
      (s\<lparr>heap := (heap s)(nalloc s \<mapsto> One \<lparr>ot_c = clock r (reads s), ot_fn = fn, ot_t = v\<rparr>),
         nalloc := Suc (nalloc s), reads := reads s + 1\<rparr>)"
    using st by (simp add: NewOneTimer_def Let_def)
  then show ?thesis by (rule constructor_tracked[OF tr mono])
next
  case (CallNewIntervalTimer fn v delay interval)
  then have "s' = queue (nalloc s) delay
      (s\<lparr>heap := (heap s)(nalloc s \<mapsto> Interval \<lparr>it_c = clock r (reads s), it_i = interval,
               it_n = Add (clock r (Suc (reads s))) interval, it_fn = fn, it_t = v, it_s = False\<rparr>),
         nalloc := Suc (nalloc s), reads := reads s + 2\<rparr>)"
    using st by (simp add: NewIntervalTimer_def Let_def)
  then show ?thesis by (rule constructor_tracked[OF tr mono])
next
  case (Poll ch)
  then show ?thesis using poll_iter_tracked[OF tr mono] st by simp
qed

lemma run_tracked:
  "tracked r a c i L (\<not> dead s) s \<Longrightarrow> mono_clock r \<Longrightarrow> run r es s = Some s' \<Longrightarrow>
   tracked r a c i L (\<not> dead s') s'"
proof (induction es arbitrary: s)
  case Nil
  then show ?case by simp
next
  case (Cons e es)
  then obtain s1 where s1: "step r e s = Some s1" "run r es s1 = Some s'"
    by (auto split: option.splits)
  have "tracked r a c i L (\<not> dead s1) s1"
    by (rule step_tracked[OF Cons.prems(1,2) s1(1)])
  then show ?case using Cons.IH Cons.prems(2) s1(2) by blast
qed

subsection \<open>Addresses not yet allocated are unseen\<close>

lemma constructor_unseen:
  assumes "\<forall>a\<ge>nalloc s. unseen a s"
    and s': "s' = queue (nalloc s) delay (s\<lparr>heap := h, nalloc := Suc (nalloc s), reads := k\<rparr>)"
  shows "\<forall>a\<ge>nalloc s'. unseen a s'"
proof (intro allI impI)
  fix a assume "nalloc s' \<le> a"
  then have a: "nalloc s < a" by (simp add: s' queue_effect)
  then have "unseen a s" using assms(1) by simp
  then show "unseen a s'"
    using a unfolding unseen_def s' queue_effect fire_times_queue
    by (simp add: fire_times_def live_addrs_def)
qed

lemma poll_iter_unseen:
  assumes un: "unseen a s" and it: "poll_iter r ch s = Some s'"
  shows "unseen a s'"
proof -
  obtain sc where sc: "sched s = Some sc" "polling sc"
    using poll_iter_enabled[OF it] by blast
  show ?thesis
  proof (cases ch)
    case Stop
    then have "s' = s\<lparr>sched := None, pending := [], stranded := stranded s @ pending s\<rparr>"
      using it sc by (simp add: poll_iter_def)
    then show ?thesis using un by (simp add: unseen_def fire_times_def live_addrs_def)
  next
    case (Recv k)
    let ?b = "fst (pending s ! k)"
    have k: "k < length (pending s)"
      using it sc Recv by (auto simp: poll_iter_def split: if_splits)
    have s': "s' = s\<lparr>sched := Some (sc\<lparr>timers := append_sl (growcap r) (timers sc) [Some ?b]\<rparr>),
                     pending := take k (pending s) @ drop (Suc k) (pending s)\<rparr>"
      using it sc Recv by (auto simp: poll_iter_def split: if_splits)
    have live: "live_addrs s' \<subseteq> live_addrs s \<union> {?b}"
      using addrs_of_append_sl[of "growcap r" "timers sc" "[Some ?b]"] sc
      by (auto simp: s' live_addrs_def)
    have b: "?b \<in> fst ` set (pending s)" using k by simp
    have pend: "set (pending s') \<subseteq> set (pending s)"
      by (auto simp: s' dest: in_set_takeD in_set_dropD)
    have "fire_times a s' = fire_times a s" by (simp add: s' fire_times_def)
    then show ?thesis using un live b pend unfolding unseen_def by auto
  next
    case Default
    let ?R = "range_timers r (enumerate 0 (elems (timers sc))) [] s"
    obtain ts' pl where s': "s' = (res_state ?R)\<lparr>sched := Some \<lparr>timers = ts', polling = pl\<rparr>, out := out s'\<rparr>"
      and sub: "addrs_of ts' \<subseteq> addrs_of (timers sc)"
      using poll_iter_Default[OF sc] it Default by blast
    have fr: "same_frame s (res_state ?R)" by (rule range_timers_frame)
    have "Some a \<notin> snd ` set (enumerate 0 (elems (timers sc)))"
      using un sc addrs_of_elems[of a "timers sc"]
      by (auto simp: snd_set_enumerate unseen_def live_addrs_def)
    then have ft: "fire_times a (res_state ?R) = fire_times a s"
      using range_timers_other by blast
    have 1: "fire_times a s' = fire_times a s"
      by (subst s') (simp add: fire_times_def ft[unfolded fire_times_def])
    have 2: "live_addrs s' \<subseteq> live_addrs s"
      by (subst s') (use sub sc in \<open>simp add: live_addrs_def\<close>)
    have 3: "pending s' = pending s"
      by (subst s') (use fr in \<open>simp add: same_frame_def\<close>)
    show ?thesis using un 1 2 3 unfolding unseen_def by auto
  qed
qed

lemma poll_iter_nalloc: "poll_iter r ch s = Some s' \<Longrightarrow> nalloc s' = nalloc s"
proof -
  assume it: "poll_iter r ch s = Some s'"
  obtain sc where sc: "sched s = Some sc" "polling sc"
    using poll_iter_enabled[OF it] by blast
  show ?thesis
  proof (cases ch)
    case Default
    let ?R = "range_timers r (enumerate 0 (elems (timers sc))) [] s"
    obtain ts' pl where s': "s' = (res_state ?R)\<lparr>sched := Some \<lparr>timers = ts', polling = pl\<rparr>, out := out s'\<rparr>"
      using poll_iter_Default[OF sc] it Default by blast
    have fr: "same_frame s (res_state ?R)" by (rule range_timers_frame)
    show ?thesis by (subst s') (use fr in \<open>simp add: same_frame_def\<close>)
  qed (use it sc in \<open>auto simp: poll_iter_def split: if_splits\<close>)
qed

lemma step_unseen:
  assumes "\<forall>a\<ge>nalloc s. unseen a s" and st: "step r e s = Some s'"
  shows "\<forall>a\<ge>nalloc s'. unseen a s'"
proof (cases e)
  case (CallNewOneTimer fn v delay)
  then have "s' = queue (nalloc s) delay
      (s\<lparr>heap := (heap s)(nalloc s \<mapsto> One \<lparr>ot_c = clock r (reads s), ot_fn = fn, ot_t = v\<rparr>),
         nalloc := Suc (nalloc s), reads := Suc (reads s)\<rparr>)"
    using st by (simp add: NewOneTimer_def Let_def)
  then show ?thesis by (rule constructor_unseen[OF assms(1)])
next
  case (CallNewIntervalTimer fn v delay interval)
  then have "s' = queue (nalloc s) delay
      (s\<lparr>heap := (heap s)(nalloc s \<mapsto> Interval \<lparr>it_c = clock r (reads s), it_i = interval,
               it_n = Add (clock r (Suc (reads s))) interval, it_fn = fn, it_t = v, it_s = False\<rparr>),
         nalloc := Suc (nalloc s), reads := Suc (Suc (reads s))\<rparr>)"
    using st by (simp add: NewIntervalTimer_def Let_def)
  then show ?thesis by (rule constructor_unseen[OF assms(1)])
next
  case (Poll ch)
  then have it: "poll_iter r ch s = Some s'" using st by simp
  show ?thesis using assms(1) poll_iter_unseen[OF _ it] poll_iter_nalloc[OF it] by simp
qed

lemma run_unseen:
  "\<forall>a\<ge>nalloc s. unseen a s \<Longrightarrow> run r es s = Some s' \<Longrightarrow> \<forall>a\<ge>nalloc s'. unseen a s'"
proof (induction es arbitrary: s)
  case Nil
  then show ?case by simp
next
  case (Cons e es)
  then obtain s1 where s1: "step r e s = Some s1" "run r es s1 = Some s'"
    by (auto split: option.splits)
  show ?case using Cons.IH[OF step_unseen[OF Cons.prems(1) s1(1)] s1(2)] .
qed

lemma init_unseen: "unseen a (init w)"
  by (simp add: unseen_def init_def fire_times_def live_addrs_def)

lemma NewIntervalTimer_tracked:
  assumes mono: "mono_clock r" and un: "unseen (nalloc s) s"
    and s1: "s1 = snd (NewIntervalTimer r fn v delay interval s)"
  shows "tracked r (nalloc s) (clock r (reads s)) interval
           (clock r (reads s) + (case delay of None \<Rightarrow> 0 | Some d \<Rightarrow> d)) (\<not> dead s1) s1"
proof -
  let ?a = "nalloc s" and ?c = "clock r (reads s)"
  let ?tm = "\<lparr>it_c = ?c, it_i = interval, it_n = Add (clock r (Suc (reads s))) interval,
              it_fn = fn, it_t = v, it_s = False\<rparr>"
  let ?s0 = "s\<lparr>heap := (heap s)(?a \<mapsto> Interval ?tm), nalloc := Suc ?a, reads := Suc (Suc (reads s))\<rparr>"
  have s1': "s1 = queue ?a delay ?s0"
    by (simp add: s1 NewIntervalTimer_def Let_def)
  have le: "?c \<le> clock r (Suc (reads s))" "?c \<le> clock r (Suc (Suc (reads s)))"
    using mono by (simp_all add: mono_clock_def)
  have ft: "fire_times ?a s1 = []"
    using un by (simp add: s1' fire_times_queue) (simp add: fire_times_def unseen_def)
  have live: "?a \<notin> live_addrs s1"
    using un by (simp add: s1' queue_effect) (simp add: live_addrs_def unseen_def)
  have pend: "(?a, sd) \<in> set (pending s1) \<Longrightarrow>
               sd = (case delay of None \<Rightarrow> Caller | Some d \<Rightarrow> Waiter (Suc (Suc (reads s))) d)" for sd
    using un by (auto simp: s1' queue_effect unseen_def image_iff split: option.splits)
  have hp: "heap s1 ?a = Some (Interval ?tm)"
    by (simp add: s1' queue_effect)
  have p: "\<forall>sd. (?a, sd) \<in> set (pending s1) \<longrightarrow>
             ?c + (case delay of None \<Rightarrow> 0 | Some d \<Rightarrow> d) \<le> clock r (reads s1)
             \<or> (\<exists>j d. sd = Waiter j d \<and> 0 < j
                   \<and> ?c + (case delay of None \<Rightarrow> 0 | Some d \<Rightarrow> d) \<le> clock r (j - 1) + d)"
  proof (intro allI impI)
    fix sd assume "(?a, sd) \<in> set (pending s1)"
    then have sd: "sd = (case delay of None \<Rightarrow> Caller | Some d \<Rightarrow> Waiter (Suc (Suc (reads s))) d)"
      by (rule pend)
    show "?c + (case delay of None \<Rightarrow> 0 | Some d \<Rightarrow> d) \<le> clock r (reads s1)
             \<or> (\<exists>j d. sd = Waiter j d \<and> 0 < j
                   \<and> ?c + (case delay of None \<Rightarrow> 0 | Some d \<Rightarrow> d) \<le> clock r (j - 1) + d)"
      using sd le by (cases delay) (simp_all add: s1' queue_effect)
  qed
  show ?thesis
    unfolding tracked_def ft hp using live p le
    by (simp add: Add_def) (simp add: s1' queue_effect)
qed


subsection \<open>A sweep over an interval timer that is not stopped\<close>





section \<open>The claims\<close>

text \<open>
  Claim C1 says that a sweep which marks k of the n live timers leaves exactly n - k
  of them, in their old order. The removal loop assigns
  \<^verbatim>\<open>append(s.timers[:idx], s.timers[:idx+1]...)\<close>, which keeps the marked element and
  repeats the ones before it. Evaluated here: after a sweep over one one-shot timer
  (n = 1, k = 1) the live set still holds that timer, and after a sweep over two one-shot
  timers (n = 2, k = 2) it holds three entries.
\<close>

theorem sweep_keeps_marked_timers:
  "map_option (map_option (elems \<circ> timers) \<circ> sched)
     (run ticking [CallNewOneTimer app ''a'' None, Poll (Recv 0), Poll Default] (init []))
     = Some (Some [Some 0])
   \<and> map_option (map_option (elems \<circ> timers) \<circ> sched)
     (run ticking [CallNewOneTimer app ''a'' None, CallNewOneTimer app ''b'' None,
                   Poll (Recv 0), Poll (Recv 0), Poll Default] (init []))
     = Some (Some [Some 0, Some 0, Some 1])"
  by (simp add: gotimer_defs ticking_def app_def)

text \<open>
  Claim C2 says that when a callback panics during a sweep, the loop goes on with the
  remaining timers and stays alive, the fault being recorded and not re-raised. On the
  code the fault is recorded and not re-raised, but it ends the poll loop. A sample run:
  of two live one-shot timers the first panics; the second callback is not invoked (the
  results stay empty), the diagnostic is printed, the poll goroutine is gone and a
  further iteration cannot happen.
\<close>

theorem callback_panic_ends_poll_example:
  "map_option world
     (run ticking [CallNewOneTimer boom ''a'' None, CallNewOneTimer app ''b'' None,
                   Poll (Recv 0), Poll (Recv 0), Poll Default] (init [])) = Some []
   \<and> map_option fires
     (run ticking [CallNewOneTimer boom ''a'' None, CallNewOneTimer app ''b'' None,
                   Poll (Recv 0), Poll (Recv 0), Poll Default] (init [])) = Some [(0, 2)]
   \<and> map_option out
     (run ticking [CallNewOneTimer boom ''a'' None, CallNewOneTimer app ''b'' None,
                   Poll (Recv 0), Poll (Recv 0), Poll Default] (init []))
       = Some [''recovered from panic: boom'']
   \<and> map_option (map_option polling \<circ> sched)
     (run ticking [CallNewOneTimer boom ''a'' None, CallNewOneTimer app ''b'' None,
                   Poll (Recv 0), Poll (Recv 0), Poll Default] (init [])) = Some (Some False)
   \<and> run ticking [CallNewOneTimer boom ''a'' None, CallNewOneTimer app ''b'' None,
                   Poll (Recv 0), Poll (Recv 0), Poll Default, Poll Default] (init []) = None"
  by (simp add: gotimer_defs ticking_def app_def boom_def)

text \<open>
  Claim C2 as amended: when the callback of a timer panics during a sweep, the timers
  after it are not ticked in that sweep and nothing is removed; the deferred function of
  \<^verbatim>\<open>poll\<close> recovers the panic and prints \<^verbatim>\<open>recovered from panic: \<close> followed by the
  panic value; nothing is re-raised; \<^verbatim>\<open>poll\<close> returns, so that no further iteration
  of the loop happens.
\<close>

theorem callback_panic_ends_poll:
  assumes "sched s = Some sc" and "polling sc"
    and "elems (timers sc) = xs1 @ Some a # xs2"
    and "range_timers r (enumerate 0 xs1) [] s = Ok del s1"
    and "heap s1 a = Some tm" and "getInterval tm = None \<or> \<not> getStop tm"
    and "tick (clock r (reads s1)) tm (world s1) = (tm', Some (Panicked p w'))"
  shows "\<exists>s2. poll_iter r Default s = Some s2
           \<and> out s2 = out s @ [''recovered from panic: '' @ p]
           \<and> sched s2 = Some (sc\<lparr>polling := False\<rparr>)
           \<and> fires s2 = fires s1 @ [(a, clock r (reads s1))]
           \<and> world s2 = w'
           \<and> (\<forall>ch. poll_iter r ch s2 = None)"
proof -
  let ?s2 = "s1\<lparr>heap := (heap s1)(a \<mapsto> tm'), world := w', reads := Suc (reads s1),
                 fires := fires s1 @ [(a, clock r (reads s1))]\<rparr>"
  have one: "sweep_one r (length xs1) (Some a) del s1 = Panic p ?s2"
    using assms(5,6,7) by (rule sweep_one_callback_panics)
  have rt: "range_timers r (enumerate 0 (elems (timers sc))) [] s = Panic p ?s2"
    using range_timers_stops[OF assms(4) one, of "enumerate (Suc (length xs1)) xs2"] assms(3)
    by (simp add: enumerate_append_eq)
  have fr: "sched ?s2 = sched s \<and> out ?s2 = out s"
    using range_timers_frame[of s r "enumerate 0 (elems (timers sc))" "[]"] rt
    by (simp add: same_frame_def)
  let ?s3 = "?s2\<lparr>sched := Some (sc\<lparr>polling := False\<rparr>),
                  out := out s @ [''recovered from panic: '' @ p]\<rparr>"
  have a: "poll_iter r Default s = Some ?s3"
    using assms(1,2) rt fr by (simp add: poll_iter_def sweep_def)
  have b: "poll_iter r ch ?s3 = None" for ch
    by (simp add: poll_iter_def)
  show ?thesis using a b by simp
qed

theorem callback_panic_ends_poll_witness:
  "sched faulty_first = Some two_live \<and> polling two_live
   \<and> elems (timers two_live) = [] @ Some 0 # [Some 1]
   \<and> heap faulty_first 0 = Some (One \<lparr>ot_c = 0, ot_fn = boom, ot_t = ''a''\<rparr>)
   \<and> (\<exists>s2. poll_iter ticking Default faulty_first = Some s2
           \<and> out s2 = [''recovered from panic: boom'']
           \<and> sched s2 = Some (two_live\<lparr>polling := False\<rparr>)
           \<and> fires s2 = [(0, 2)]
           \<and> world s2 = []
           \<and> (\<forall>ch. poll_iter ticking ch s2 = None))"
  using callback_panic_ends_poll [of faulty_first two_live "[]" 0 "[Some 1]" ticking "[]" faulty_first
      "One \<lparr>ot_c = 0, ot_fn = boom, ot_t = ''a''\<rparr>" "One \<lparr>ot_c = 0, ot_fn = boom, ot_t = ''a''\<rparr>"
      "''boom''" "[]"]
  by (simp add: faulty_first_def two_live_def elems_def ticking_def boom_def
      OneTimer_getInterval_def OneTimer_tick_def)

text \<open>
  Claim C3 says that the callback of a one-shot timer is invoked at least once, not
  before its delay has passed, and never more than once. Since the removal loop keeps the
  timer (see C1), every later sweep invokes the callback again. Evaluated here: one
  one-shot timer with payload \<open>''a''\<close> and delay 50, received by the loop and followed by
  two sweeps, has its callback invoked twice.
\<close>

theorem one_shot_fires_on_every_sweep:
  "map_option world
     (run coarse [CallNewOneTimer app ''a'' (Some 50), Poll (Recv 0), Poll Default, Poll Default]
        (init [])) = Some [''a'', ''a'']
   \<and> map_option fires
     (run coarse [CallNewOneTimer app ''a'' (Some 50), Poll (Recv 0), Poll Default, Poll Default]
        (init [])) = Some [(0, 100), (0, 200)]"
  by (simp add: gotimer_defs coarse_def app_def)

text \<open>
  Claim C4: \<^verbatim>\<open>tick(now)\<close> of an interval timer invokes the callback (with the bound
  payload) if and only if \<open>now\<close> is strictly after the stored next due time, and then,
  the callback having returned, sets the next due time to \<open>now + interval\<close>; otherwise it
  does nothing. So a call of \<^verbatim>\<open>tick\<close> followed by any calls at times less than the
  interval after it invokes the callback at most once in total.
\<close>

theorem IntervalTimer_tick_due:
  "(snd (IntervalTimer_tick now self w) \<noteq> None \<longleftrightarrow> After now (it_n self))
   \<and> (After now (it_n self) \<longrightarrow>
        snd (IntervalTimer_tick now self w) = Some (it_fn self (it_t self) w)
        \<and> (\<forall>w'. it_fn self (it_t self) w = Returned w' \<longrightarrow>
               fst (IntervalTimer_tick now self w) = self\<lparr>it_n := Add now (it_i self)\<rparr>))
   \<and> (\<not> After now (it_n self) \<longrightarrow> IntervalTimer_tick now self w = (self, None))
   \<and> ((\<forall>t\<in>set ts. t - now < it_i self) \<longrightarrow> length (fst (tick_seq (now # ts) self w)) \<le> 1)"
proof -
  have a: "snd (IntervalTimer_tick now self w) \<noteq> None \<longleftrightarrow> After now (it_n self)"
    by (simp add: IntervalTimer_tick_def split: cb_result.splits)
  have b: "After now (it_n self) \<longrightarrow>
        snd (IntervalTimer_tick now self w) = Some (it_fn self (it_t self) w)
        \<and> (\<forall>w'. it_fn self (it_t self) w = Returned w' \<longrightarrow>
               fst (IntervalTimer_tick now self w) = self\<lparr>it_n := Add now (it_i self)\<rparr>)"
    by (simp add: IntervalTimer_tick_def split: cb_result.splits)
  have c: "\<not> After now (it_n self) \<longrightarrow> IntervalTimer_tick now self w = (self, None)"
    by (simp add: IntervalTimer_tick_def)
  have d: "length (fst (tick_seq (now # ts) self w)) \<le> 1" if h: "\<forall>t\<in>set ts. t - now < it_i self"
  proof (cases "After now (it_n self)")
    case True
    show ?thesis
    proof (cases "it_fn self (it_t self) w")
      case (Returned w')
      have "\<forall>t\<in>set ts. \<not> After t (it_n (self\<lparr>it_n := Add now (it_i self)\<rparr>))"
        using h by (auto simp: After_def Add_def)
      then have "tick_seq ts (self\<lparr>it_n := Add now (it_i self)\<rparr>) w'
                   = ([], self\<lparr>it_n := Add now (it_i self)\<rparr>, w')"
        by (rule tick_seq_quiet)
      then show ?thesis using True Returned by (simp add: IntervalTimer_tick_def)
    next
      case (Panicked p w')
      then show ?thesis using True by (simp add: IntervalTimer_tick_def)
    qed
  next
    case False
    have "length (fst (tick_seq ts self w)) \<le> 1" using h
    proof (induction ts)
      case Nil
      then show ?case by simp
    next
      case (Cons t ts)
      show ?case
      proof (cases "After t (it_n self)")
        case due: True
        show ?thesis
        proof (cases "it_fn self (it_t self) w")
          case (Returned w')
          have "\<forall>u\<in>set ts. \<not> After u (it_n (self\<lparr>it_n := Add t (it_i self)\<rparr>))"
            using Cons.prems False due by (auto simp: After_def Add_def)
          then have "tick_seq ts (self\<lparr>it_n := Add t (it_i self)\<rparr>) w'
                       = ([], self\<lparr>it_n := Add t (it_i self)\<rparr>, w')"
            by (rule tick_seq_quiet)
          then show ?thesis using due Returned by (simp add: IntervalTimer_tick_def)
        next
          case (Panicked p w')
          then show ?thesis using due by (simp add: IntervalTimer_tick_def)
        qed
      next
        case False
        then show ?thesis using Cons by (simp add: IntervalTimer_tick_def)
      qed
    qed
    then show ?thesis using False by (simp add: IntervalTimer_tick_def)
  qed
  show ?thesis using a b c d by blast
qed

theorem IntervalTimer_tick_due_witness:
  "After 11 (it_n every10) \<and> quiet 7 5 = Returned 5
   \<and> 12 - 11 < it_i every10 \<and> 15 - 11 < it_i every10 \<and> 20 - 11 < it_i every10
   \<and> \<not> After 10 (it_n every10)
   \<and> IntervalTimer_tick 11 every10 5 = (every10\<lparr>it_n := 21\<rparr>, Some (Returned 5))
   \<and> length (fst (tick_seq [11, 12, 15, 20] every10 5)) \<le> 1
   \<and> IntervalTimer_tick 10 every10 5 = (every10, None)"
  using IntervalTimer_tick_due [of 11 every10 5 "[12, 15, 20]"]
    IntervalTimer_tick_due [of 10 every10 5 "[]"]
  by (simp add: every10_def quiet_def After_def Add_def prod_eq_iff)

text \<open>
  Claim C5: \<^verbatim>\<open>NewIntervalTimer\<close> sets the next due time to the clock reading plus the
  interval; in every run of the program from its start, with a clock that never goes
  back, the times at which the poll loop fires the timer are at least one interval apart,
  and each of them, the first included, is at least \<open>max(d, i)\<close> after the creation time
  of the timer, where \<open>d\<close> is the delay (0 when none was given) and \<open>i\<close> the interval.
\<close>

theorem interval_timer_fire_times:
  assumes "mono_clock r"
    and "run r es0 (init w) = Some s"
    and "NewIntervalTimer r fn v delay interval s = (a, s1)"
    and "run r es s1 = Some s2"
  shows "(\<exists>tm. heap s1 a = Some (Interval tm) \<and> it_c tm = clock r (reads s) \<and> it_i tm = interval
               \<and> it_n tm = Add (clock r (Suc (reads s))) interval)
         \<and> separated interval (fire_times a s2)
         \<and> (\<forall>t\<in>set (fire_times a s2).
               max (case delay of None \<Rightarrow> 0 | Some d \<Rightarrow> d) interval \<le> t - clock r (reads s))"
proof -
  have s1: "s1 = snd (NewIntervalTimer r fn v delay interval s)"
    using assms(3) by simp
  have a: "a = nalloc s"
    using assms(3) by (auto simp: NewIntervalTimer_def Let_def)
  have "\<forall>b\<ge>nalloc s. unseen b s"
    by (rule run_unseen[OF _ assms(2)]) (simp add: init_unseen)
  then have un: "unseen (nalloc s) s" by simp
  have "tracked r a (clock r (reads s)) interval
           (clock r (reads s) + (case delay of None \<Rightarrow> 0 | Some d \<Rightarrow> d)) (\<not> dead s1) s1"
    unfolding a by (rule NewIntervalTimer_tracked[OF assms(1) un s1])
  then have "tracked r a (clock r (reads s)) interval
           (clock r (reads s) + (case delay of None \<Rightarrow> 0 | Some d \<Rightarrow> d)) (\<not> dead s2) s2"
    using assms(1,4) by (rule run_tracked)
  then have 2: "separated interval (fire_times a s2)"
    and 3: "\<forall>t\<in>set (fire_times a s2). clock r (reads s) + interval < t
              \<and> clock r (reads s) + (case delay of None \<Rightarrow> 0 | Some d \<Rightarrow> d) \<le> t"
    by (simp_all add: tracked_def)
  have 1: "\<exists>tm. heap s1 a = Some (Interval tm) \<and> it_c tm = clock r (reads s) \<and> it_i tm = interval
               \<and> it_n tm = Add (clock r (Suc (reads s))) interval"
    unfolding s1 a by (simp add: NewIntervalTimer_def Let_def queue_effect)
  show ?thesis using 1 2 3 by fastforce
qed

theorem interval_timer_fire_times_witness:
  "mono_clock coarse
   \<and> run coarse [] (init 0) = Some (init 0 :: (nat, nat) sys)
   \<and> fst (NewIntervalTimer coarse quiet 7 (Some 50) 150 (init 0)) = 0
   \<and> (\<exists>s2. run coarse [Poll (Recv 0), Poll Default, Poll Default, Poll Default, Poll Default]
              (snd (NewIntervalTimer coarse quiet 7 (Some 50) 150 (init 0))) = Some s2
           \<and> fire_times 0 s2 = [300, 500]
           \<and> separated 150 (fire_times 0 s2)
           \<and> list_all (\<lambda>t. max 50 150 \<le> t - 0) (fire_times 0 s2))"
proof -
  have m: "mono_clock coarse" by (simp add: mono_clock_def coarse_def)
  have r0: "run coarse [] (init (0::nat)) = Some (init 0 :: (nat, nat) sys)" by simp
  have c: "NewIntervalTimer coarse quiet 7 (Some 50) 150 (init 0)
            = (0, snd (NewIntervalTimer coarse quiet 7 (Some 50) 150 (init 0)))"
    by (simp add: NewIntervalTimer_def Let_def init_def)
  obtain s2 where s2: "run coarse [Poll (Recv 0), Poll Default, Poll Default, Poll Default, Poll Default]
              (snd (NewIntervalTimer coarse quiet 7 (Some 50) 150 (init 0))) = Some s2"
    and ft: "fire_times 0 s2 = [300, 500]"
    by (simp add: gotimer_defs coarse_def quiet_def fire_times_def)
  have f: "fst (NewIntervalTimer coarse quiet 7 (Some 50) 150 (init 0)) = 0"
    using c by (metis fst_conv)
  have "separated 150 (fire_times 0 s2)
        \<and> (\<forall>t\<in>set (fire_times 0 s2). max 50 150 \<le> t - clock coarse (reads (init 0 :: (nat, nat) sys)))"
    using interval_timer_fire_times [OF m r0 c s2] by simp
  then have sep: "separated 150 (fire_times 0 s2)"
    and b: "list_all (\<lambda>t. max 50 150 \<le> t - 0) (fire_times 0 s2)"
    by (simp_all add: coarse_def init_def list_all_iff)
  have e: "\<exists>s2. run coarse [Poll (Recv 0), Poll Default, Poll Default, Poll Default, Poll Default]
              (snd (NewIntervalTimer coarse quiet 7 (Some 50) 150 (init 0))) = Some s2
           \<and> fire_times 0 s2 = [300, 500]
           \<and> separated 150 (fire_times 0 s2)
           \<and> list_all (\<lambda>t. max 50 150 \<le> t - 0) (fire_times 0 s2)"
    using s2 ft sep b by blast
  show ?thesis using m r0 f e by blast
qed

text \<open>
  Claim C6 says that both constructors return without waiting for the scheduler to
  accept the timer, also when no delay is given. Without a delay the deferred
  \<^verbatim>\<open>queue\<close> sends on the unbuffered channel from the calling goroutine, before the
  constructor returns: the caller is left among the waiting senders, until an iteration of
  the poll loop receives its timer. With a delay the sender is a new goroutine.
\<close>

theorem constructor_without_delay_waits:
  "pending (snd (NewOneTimer r fn v None s)) = pending s @ [(nalloc s, Caller)]
   \<and> pending (snd (NewIntervalTimer r fn v None interval s)) = pending s @ [(nalloc s, Caller)]
   \<and> pending (snd (NewOneTimer r fn v (Some d) s)) = pending s @ [(nalloc s, Waiter (Suc (reads s)) d)]
   \<and> pending (snd (NewIntervalTimer r fn v (Some d) interval s))
       = pending s @ [(nalloc s, Waiter (Suc (Suc (reads s))) d)]"
  by (simp add: NewOneTimer_def NewIntervalTimer_def Let_def queue_def instance_sched_def
      split: option.splits)

text \<open>
  Claim C7 says that constructing an interval timer without a positive interval is
  rejected with an error. The constructor has no such check. A sample run: with interval
  0 it returns a timer, which reports the interval 0 and is handed to the scheduler, and
  which fires on each of the two sweeps that follow.
\<close>

theorem NewIntervalTimer_zero_interval_accepted:
  "fst (NewIntervalTimer ticking quiet 7 None 0 (init 0)) = 0
   \<and> map_option getInterval (heap (snd (NewIntervalTimer ticking quiet 7 None 0 (init 0))) 0)
       = Some (Some 0)
   \<and> pending (snd (NewIntervalTimer ticking quiet 7 None 0 (init 0))) = [(0, Caller)]
   \<and> map_option fires
       (run ticking [CallNewIntervalTimer quiet 7 None 0, Poll (Recv 0), Poll Default, Poll Default]
          (init 0))
       = Some [(0, 2), (0, 3)]"
  by (simp add: gotimer_defs ticking_def quiet_def)

text \<open>
  Claim C7 as amended: \<^verbatim>\<open>NewIntervalTimer\<close> checks nothing. For every interval, positive
  or not, it returns a new timer with that interval, with the next due time one interval
  after the clock reading and the stop flag unset, and hands it to \<^verbatim>\<open>queue\<close>.
\<close>

theorem NewIntervalTimer_accepts_all:
  "NewIntervalTimer r fn v delay interval s =
     (nalloc s,
      queue (nalloc s) delay
        (s\<lparr>heap := (heap s)(nalloc s \<mapsto> Interval \<lparr>it_c = clock r (reads s), it_i = interval,
               it_n = Add (clock r (Suc (reads s))) interval, it_fn = fn, it_t = v, it_s = False\<rparr>),
            nalloc := Suc (nalloc s), reads := Suc (Suc (reads s))\<rparr>))
   \<and> (\<exists>sd. pending (snd (NewIntervalTimer r fn v delay interval s)) = pending s @ [(nalloc s, sd)])"
  by (simp add: NewIntervalTimer_def Let_def queue_def instance_sched_def split: option.splits)

text \<open>
  Claim C8: a one-shot timer always reports no interval and always reports finished, and
  its \<^verbatim>\<open>tick\<close> invokes the callback with the bound payload whatever the time given.
\<close>

theorem OneTimer_contract:
  "OneTimer_getInterval self = None
   \<and> OneTimer_getStop self = True
   \<and> OneTimer_tick now self w = (self, Some (ot_fn self (ot_t self) w))
   \<and> getInterval (One self) = None
   \<and> getStop (One self) = True
   \<and> snd (tick now (One self) w) = Some (ot_fn self (ot_t self) w)"
  by (simp add: OneTimer_getInterval_def OneTimer_getStop_def OneTimer_tick_def)

text \<open>
  Claim C9: \<^verbatim>\<open>tick\<close> of an interval timer leaves the creation time, the interval, the
  callback, the payload and the stop flag as they were; the only field it may change
  is the next due time, and only when it fires.
\<close>

theorem IntervalTimer_tick_frame:
  "it_c (fst (IntervalTimer_tick now self w)) = it_c self
   \<and> it_i (fst (IntervalTimer_tick now self w)) = it_i self
   \<and> it_fn (fst (IntervalTimer_tick now self w)) = it_fn self
   \<and> it_t (fst (IntervalTimer_tick now self w)) = it_t self
   \<and> it_s (fst (IntervalTimer_tick now self w)) = it_s self
   \<and> fst (IntervalTimer_tick now self w) = self\<lparr>it_n := it_n (fst (IntervalTimer_tick now self w))\<rparr>
   \<and> (it_n (fst (IntervalTimer_tick now self w)) \<noteq> it_n self \<longrightarrow>
        After now (it_n self) \<and> (\<exists>w'. snd (IntervalTimer_tick now self w) = Some (Returned w')))"
  by (simp add: IntervalTimer_tick_def split: cb_result.splits)

theorem IntervalTimer_tick_frame_witness:
  "it_n (fst (IntervalTimer_tick 11 every10 5)) \<noteq> it_n every10
   \<and> After 11 (it_n every10)
   \<and> snd (IntervalTimer_tick 11 every10 5) = Some (Returned 5)
   \<and> fst (IntervalTimer_tick 11 every10 5) = every10\<lparr>it_n := 21\<rparr>
   \<and> it_c (fst (IntervalTimer_tick 11 every10 5)) = 0
   \<and> it_i (fst (IntervalTimer_tick 11 every10 5)) = 10
   \<and> it_t (fst (IntervalTimer_tick 11 every10 5)) = 7
   \<and> it_s (fst (IntervalTimer_tick 11 every10 5)) = False"
  using IntervalTimer_tick_frame [of 11 every10 5]
  by (simp add: every10_def quiet_def IntervalTimer_tick_def After_def Add_def)



end
